theory Spec2Isabelle
  imports Main "HOL-Library.AList" "HOL-Library.Multiset"
begin

section \<open>Data model of the balancer (lbsql.go)\<close>

text \<open>
  Go errors. \<open>ErrNoConnectors\<close> is the package's own sentinel; \<open>Canceled\<close> and
  \<open>DeadlineExceeded\<close> are the two values of \<open>ctx.Err()\<close> for a context that is done. The
  other constructors are what a \<open>driver.Connector\<close> may hand back besides: any error of
  its own (\<open>ConnError\<close>), and, since the retry loop inspects the dynamic type of whatever
  the operation returns, also a \<open>*backoff.PermanentError\<close> (whose \<open>Err\<close> field may be nil).
\<close>

datatype error =
    ErrNoConnectors
  | Canceled
  | DeadlineExceeded
  | ConnError string
  | PermanentError "error option"

text \<open>A \<open>driver.Conn\<close> is opaque to the balancer; a label stands for it, \<open>None\<close> for nil.\<close>

type_synonym conn = string

text \<open>
  A \<open>driver.Connector\<close> is known to the balancer only through \<open>Connect(ctx)\<close>, which
  returns the Go pair \<open>(driver.Conn, error)\<close>. Its behaviour may depend on whether the
  context it is given is done and on when it is called (the number of the attempt).
  A nil interface value in the map is \<open>None\<close>.
\<close>

type_synonym connector = "bool \<Rightarrow> nat \<Rightarrow> conn option \<times> error option"

text \<open>
  \<open>b.mu.connectors\<close>, a \<open>map[string]driver.Connector\<close>: an association list in which
  \<open>Add\<close> and \<open>Remove\<close> keep at most one entry for each name. The mutex only serialises
  the operations and is not modelled.
\<close>

type_synonym balancer = "(string \<times> connector option) list"

definition NewBalancer :: balancer where
  "NewBalancer = []"

text \<open>\<open>b.mu.connectors[name] = c\<close>\<close>

definition Add :: "string \<Rightarrow> connector option \<Rightarrow> balancer \<Rightarrow> balancer" where
  "Add name c b = AList.update name c b"

text \<open>\<open>delete(b.mu.connectors, name)\<close>\<close>

definition Remove :: "string \<Rightarrow> balancer \<Rightarrow> balancer" where
  "Remove name b = AList.delete name b"

text \<open>
  \<open>for ... := range b.mu.connectors\<close>: Go visits the entries of a map in an order that
  is not specified and that the runtime chooses afresh for every loop. The choices are the
  argument \<open>seed\<close>: its numbers say, one after the other, which of the entries not yet
  visited comes next; when they run out, the remaining entries are visited as they are
  stored. Every order of the entries is the result of some \<open>seed\<close>.
\<close>

fun range_map :: "nat list \<Rightarrow> 'a list \<Rightarrow> 'a list" where
  "range_map [] b = b"
| "range_map (s # ss) b =
     (if b = [] then []
      else b ! (s mod length b) #
           range_map ss (take (s mod length b) b @ drop (Suc (s mod length b)) b))"

text \<open>\<open>ConnectorNames\<close> appends every name the range loop visits.\<close>

definition ConnectorNames :: "nat list \<Rightarrow> balancer \<Rightarrow> string list" where
  "ConnectorNames seed b = map fst (range_map seed b)"

text \<open>
  \<open>randomConnector\<close> returns from inside the first iteration of the range loop, and
  \<open>(nil, ErrNoConnectors)\<close> when the loop body never runs.
\<close>

definition randomConnector :: "nat list \<Rightarrow> balancer \<Rightarrow> connector option \<times> error option" where
  "randomConnector seed b =
     (case range_map seed b of
        [] \<Rightarrow> (None, Some ErrNoConnectors)
      | (name, c) # rest \<Rightarrow> (c, None))"

text \<open>The stored connector of a name, if the map has the key (\<open>c, ok := m[name]\<close>).\<close>

definition lookup :: "balancer \<Rightarrow> string \<Rightarrow> connector option option" where
  "lookup b name = map_of b name"

subsection \<open>Sequences of registry operations\<close>

datatype reg_op = OpAdd string "connector option" | OpRemove string

fun apply_op :: "balancer \<Rightarrow> reg_op \<Rightarrow> balancer" where
  "apply_op b (OpAdd name c) = Add name c b"
| "apply_op b (OpRemove name) = Remove name b"

definition run_ops :: "reg_op list \<Rightarrow> balancer \<Rightarrow> balancer" where
  "run_ops ops b = foldl apply_op b ops"

text \<open>
  The membership the specification describes, in its own words: the names that have been
  added and not subsequently removed.
\<close>

definition added_not_removed :: "reg_op list \<Rightarrow> string set" where
  "added_not_removed ops =
     {name. \<exists>i < length ops. (\<exists>c. ops ! i = OpAdd name c) \<and>
              (\<forall>j. i < j \<and> j < length ops \<longrightarrow> ops ! j \<noteq> OpRemove name)}"

section \<open>Connection establishment\<close>

text \<open>
  What a Go call yields: its results, or a run-time panic that unwinds the caller.
\<close>

datatype 'a go = Ret 'a | Panic

text \<open>
  Everything \<open>Connect\<close> depends on besides the registry. Time is counted in ticks, three
  for each attempt \<open>k\<close>: the connector is called at tick \<open>3 * k\<close>, the back-off policy is
  asked for the next delay at tick \<open>3 * k + 1\<close>, and the wait for that delay ends at tick
  \<open>3 * k + 2\<close>.
  \<^item> \<open>range_seed k\<close>: the order the runtime chooses for the range loop of attempt \<open>k\<close>;
  \<^item> \<open>ctx_done_at\<close>: the tick from which the caller's context is done (\<open>None\<close>: never,
    as for \<open>context.Background()\<close>; \<open>Some 0\<close>: done before \<open>Connect\<close> is called);
  \<^item> \<open>next_stop k\<close>: the exponential policy answers \<open>Stop\<close> after the failure of attempt
    \<open>k\<close>, its elapsed-time budget being used up;
  \<^item> \<open>done_error\<close>: the error the retry loop hands back when it gives up because the
    context is done, as a function of the operation's last error (that error itself, or
    \<open>ctx.Err()\<close> in its place: the source does not fix which).
\<close>

record env =
  range_seed :: "nat \<Rightarrow> nat list"
  ctx_done_at :: "nat option"
  next_stop :: "nat \<Rightarrow> bool"
  done_error :: "error \<Rightarrow> error"

definition ctx_done :: "env \<Rightarrow> nat \<Rightarrow> bool" where
  "ctx_done e t = (case ctx_done_at e of None \<Rightarrow> False | Some t0 \<Rightarrow> t0 \<le> t)"

text \<open>
  The variable \<open>conn\<close> that the closure in \<open>Connect\<close> assigns, paired with a count of the
  calls made to connectors' \<open>Connect\<close> so far (the count is an observation, not a
  variable of the program).
\<close>

type_synonym vars = "conn option \<times> nat"

text \<open>
  The closure handed to \<open>backoff.Retry\<close>, at attempt \<open>k\<close>, the registry holding \<open>bs k\<close>
  when the attempt locks it:
  \<^verbatim>\<open>
    c, err := b.randomConnector()
    if err != nil { return backoff.Permanent(err) }
    conn, err = c.Connect(ctx)
    return err
  \<close>
  Calling \<open>Connect\<close> on a nil interface value panics.
\<close>

definition operation :: "env \<Rightarrow> (nat \<Rightarrow> balancer) \<Rightarrow> nat \<Rightarrow> vars \<Rightarrow> error option go \<times> vars" where
  "operation e bs k st =
     (case randomConnector (range_seed e k) (bs k) of
        (c, Some err) \<Rightarrow> (Ret (Some (PermanentError (Some err))), st)
      | (None, None) \<Rightarrow> (Panic, st)
      | (Some f, None) \<Rightarrow>
          (case f (ctx_done e (3 * k)) k of
             (conn', err') \<Rightarrow> (Ret err', (conn', Suc (snd st)))))"

text \<open>The type assertion \<open>err.(*PermanentError)\<close>: the wrapped error when it holds.\<close>

fun as_permanent :: "error \<Rightarrow> error option option" where
  "as_permanent (PermanentError inner) = Some inner"
| "as_permanent ErrNoConnectors = None"
| "as_permanent Canceled = None"
| "as_permanent DeadlineExceeded = None"
| "as_permanent (ConnError s) = None"

text \<open>
  Modelled from the spec: \<open>backoff.Retry\<close> with \<open>backoff.WithContext\<close> over
  \<open>backoff.NewExponentialBackOff()\<close>, of the imported package
  \<open>github.com/cenkalti/backoff\<close>, which is not among the sources. The loop runs the
  operation first (the package documents that the operation is run at least once); nil
  ends it with success; a permanent error ends it with the wrapped error; otherwise the
  policy is asked for the next delay, and the loop gives up when the context is done or
  the policy answers \<open>Stop\<close>; it then waits for the delay or for the context, whichever comes
  first, and starts over. The loop need not end: \<open>fuel\<close> bounds the number of attempts,
  and \<open>None\<close> says that the bound was reached.
\<close>

fun Retry :: "nat \<Rightarrow> env \<Rightarrow> (nat \<Rightarrow> balancer) \<Rightarrow> nat \<Rightarrow> vars \<Rightarrow> (error option go \<times> vars) option" where
  "Retry 0 e bs k st = None"
| "Retry (Suc fuel) e bs k st =
     (case operation e bs k st of
        (Panic, st') \<Rightarrow> Some (Panic, st')
      | (Ret None, st') \<Rightarrow> Some (Ret None, st')
      | (Ret (Some err), st') \<Rightarrow>
          (case as_permanent err of
             Some inner \<Rightarrow> Some (Ret inner, st')
           | None \<Rightarrow>
               if ctx_done e (3 * k + 1) then Some (Ret (Some (done_error e err)), st')
               else if next_stop e k then Some (Ret (Some err), st')
               else if ctx_done e (3 * k + 2) then Some (Ret (Some (done_error e err)), st')
               else Retry fuel e bs (Suc k) st'))"

text \<open>
  \<open>Connect\<close>: \<open>return nil, err\<close> when \<open>Retry\<close> gives an error, \<open>return conn, nil\<close>
  otherwise. The result is the Go pair \<open>(driver.Conn, error)\<close> together with the number of
  connector calls made.
\<close>

definition Connect :: "nat \<Rightarrow> env \<Rightarrow> (nat \<Rightarrow> balancer) \<Rightarrow> ((conn option \<times> error option) go \<times> nat) option" where
  "Connect fuel e bs =
     (case Retry fuel e bs 0 (None, 0) of
        None \<Rightarrow> None
      | Some (Panic, st) \<Rightarrow> Some (Panic, snd st)
      | Some (Ret (Some err), st) \<Rightarrow> Some (Ret (None, Some err), snd st)
      | Some (Ret None, st) \<Rightarrow> Some (Ret (fst st, None), snd st))"

subsection \<open>The connectors of the package's test\<close>

text \<open>\<open>testConnector.Connect\<close> returns \<open>nil, nil\<close>; \<open>errConnector.Connect\<close> returns \<open>nil, errors.New("err")\<close>.\<close>

definition testConnector :: connector where
  "testConnector = (\<lambda>done k. (None, None))"

definition errConnector :: connector where
  "errConnector = (\<lambda>done k. (None, Some (ConnError ''err'')))"

subsection \<open>The contract of a connector\<close>

text \<open>
  A result of a connector's \<open>Connect\<close> reports success to the retry loop when its error is
  nil, or a permanent error that wraps nil. It keeps the contract of \<open>driver.Connector\<close>
  when every success it reports comes with a connection.
\<close>

definition reports_success :: "error option \<Rightarrow> bool" where
  "reports_success err = (err = None \<or> err = Some (PermanentError None))"

definition keeps_contract :: "conn option \<times> error option \<Rightarrow> bool" where
  "keeps_contract r = (reports_success (snd r) \<longrightarrow> fst r \<noteq> None)"

subsection \<open>Environments of the examples\<close>

text \<open>
  \<open>fired_env\<close>: the caller's context is done before \<open>Connect\<close> is called, and the policy
  never answers \<open>Stop\<close>. \<open>budget_env n\<close>: the context is never done
  (\<open>context.Background()\<close>), and the policy answers \<open>Stop\<close> from attempt \<open>n\<close> on.
\<close>

definition fired_env :: env where
  "fired_env = \<lparr>range_seed = (\<lambda>k. []), ctx_done_at = Some 0, next_stop = (\<lambda>k. False),
     done_error = (\<lambda>err. err)\<rparr>"

definition budget_env :: "nat \<Rightarrow> env" where
  "budget_env n = \<lparr>range_seed = (\<lambda>k. [k]), ctx_done_at = None, next_stop = (\<lambda>k. n \<le> k),
     done_error = (\<lambda>err. err)\<rparr>"

section \<open>Registry: \<open>Add\<close>, \<open>Remove\<close>, \<open>ConnectorNames\<close>\<close>

lemma mset_range_map: "mset (range_map seed b) = mset b"
proof (induction seed arbitrary: b)
  case Nil
  show ?case by simp
next
  case (Cons s ss)
  show ?case
  proof (cases "b = []")
    case True
    then show ?thesis by simp
  next
    case False
    let ?i = "s mod length b"
    have i: "?i < length b" using False by simp
    have "mset (range_map (s # ss) b) = add_mset (b ! ?i) (mset (take ?i b @ drop (Suc ?i) b))"
      using False Cons.IH by simp
    also have "\<dots> = mset (take ?i b @ b ! ?i # drop (Suc ?i) b)" by simp
    also have "\<dots> = mset b" using i by (simp only: id_take_nth_drop [symmetric])
    finally show ?thesis .
  qed
qed

lemma set_range_map: "set (range_map seed b) = set b"
  using mset_range_map [of seed b] by (rule mset_eq_setD)

lemma length_range_map: "length (range_map seed b) = length b"
  using mset_range_map [of seed b] by (rule mset_eq_length)

text \<open>Every order of the entries is one the range loop may take.\<close>

lemma range_map_complete: "mset ys = mset b \<Longrightarrow> \<exists>seed. range_map seed b = ys"
proof (induction ys arbitrary: b)
  case Nil
  then have "b = []" by simp
  then have "range_map [] b = []" by simp
  then show ?case by blast
next
  case (Cons y ys)
  then have "y \<in> set b" by (metis list.set_intros(1) mset_eq_setD)
  then obtain i where i: "i < length b" "b ! i = y" by (auto simp: in_set_conv_nth)
  let ?rest = "take i b @ drop (Suc i) b"
  have "mset b = add_mset y (mset ?rest)"
  proof -
    have "mset b = mset (take i b @ b ! i # drop (Suc i) b)"
      using i(1) by (simp only: id_take_nth_drop [symmetric])
    then show ?thesis using i(2) by simp
  qed
  with Cons.prems have "mset ys = mset ?rest" by simp
  from Cons.IH [OF this] obtain seed where seed: "range_map seed ?rest = ys" by blast
  have "b \<noteq> []" using i(1) by auto
  moreover have "i mod length b = i" using i(1) by simp
  ultimately have "range_map (i # seed) b = y # ys" using i(2) seed by simp
  then show ?case by blast
qed

lemma keys_range_map: "set (map fst (range_map seed b)) = fst ` set b"
  by (simp add: set_range_map)

lemma distinct_range_map: "distinct (map fst (range_map seed b)) = distinct (map fst b)"
proof -
  have "mset (map fst (range_map seed b)) = mset (map fst b)"
    by (simp add: mset_range_map)
  then show ?thesis by (rule mset_eq_imp_distinct_iff)
qed

lemma keys_Add: "fst ` set (Add name c b) = insert name (fst ` set b)"
  by (simp add: Add_def dom_map_of_conv_image_fst [symmetric] AList.update_conv')

lemma keys_Remove: "fst ` set (Remove name b) = fst ` set b - {name}"
  by (simp add: Remove_def dom_map_of_conv_image_fst [symmetric] AList.delete_conv')

lemma distinct_apply_op: "distinct (map fst b) \<Longrightarrow> distinct (map fst (apply_op b x))"
  by (cases x) (simp_all add: Add_def Remove_def AList.distinct_update AList.distinct_delete)

lemma distinct_run_ops: "distinct (map fst b) \<Longrightarrow> distinct (map fst (run_ops ops b))"
  unfolding run_ops_def
  by (induction ops arbitrary: b) (simp_all add: distinct_apply_op)

lemma length_update_present:
  "k \<in> fst ` set al \<Longrightarrow> length (AList.update k v al) = length al"
  by (induction al) auto

subsection \<open>Names after a sequence of operations\<close>

lemma anr_Nil: "added_not_removed [] = {}"
  by (simp add: added_not_removed_def)

lemma anr_snoc_Add: "added_not_removed (ops @ [OpAdd n c]) = insert n (added_not_removed ops)"
proof (intro set_eqI iffI)
  fix m assume "m \<in> added_not_removed (ops @ [OpAdd n c])"
  then obtain i where i: "i < Suc (length ops)" "\<exists>c'. (ops @ [OpAdd n c]) ! i = OpAdd m c'"
    and later: "\<forall>j. i < j \<and> j < Suc (length ops) \<longrightarrow> (ops @ [OpAdd n c]) ! j \<noteq> OpRemove m"
    by (auto simp: added_not_removed_def)
  show "m \<in> insert n (added_not_removed ops)"
  proof (cases "i < length ops")
    case True
    have "\<forall>j. i < j \<and> j < length ops \<longrightarrow> ops ! j \<noteq> OpRemove m"
    proof (intro allI impI)
      fix j assume j: "i < j \<and> j < length ops"
      with later have "(ops @ [OpAdd n c]) ! j \<noteq> OpRemove m" by simp
      with j show "ops ! j \<noteq> OpRemove m" by (simp add: nth_append)
    qed
    with True i(2) have "m \<in> added_not_removed ops"
      by (auto simp: added_not_removed_def nth_append)
    then show ?thesis by simp
  next
    case False
    with i(1) have "i = length ops" by simp
    with i(2) show ?thesis by simp
  qed
next
  fix m assume m: "m \<in> insert n (added_not_removed ops)"
  show "m \<in> added_not_removed (ops @ [OpAdd n c])"
  proof (cases "m = n")
    case True
    have "length ops < length (ops @ [OpAdd n c])" by simp
    moreover have "\<exists>c'. (ops @ [OpAdd n c]) ! length ops = OpAdd m c'" using True by simp
    moreover have "\<forall>j. length ops < j \<and> j < length (ops @ [OpAdd n c]) \<longrightarrow>
        (ops @ [OpAdd n c]) ! j \<noteq> OpRemove m" by auto
    ultimately show ?thesis unfolding added_not_removed_def by blast
  next
    case False
    with m obtain i where i: "i < length ops" "\<exists>c'. ops ! i = OpAdd m c'"
      and later: "\<forall>j. i < j \<and> j < length ops \<longrightarrow> ops ! j \<noteq> OpRemove m"
      by (auto simp: added_not_removed_def)
    have "i < length (ops @ [OpAdd n c])" using i(1) by simp
    moreover have "\<exists>c'. (ops @ [OpAdd n c]) ! i = OpAdd m c'" using i by (simp add: nth_append)
    moreover have "\<forall>j. i < j \<and> j < length (ops @ [OpAdd n c]) \<longrightarrow>
        (ops @ [OpAdd n c]) ! j \<noteq> OpRemove m"
      using later by (auto simp: nth_append)
    ultimately show ?thesis unfolding added_not_removed_def by blast
  qed
qed

lemma anr_snoc_Remove: "added_not_removed (ops @ [OpRemove n]) = added_not_removed ops - {n}"
proof (intro set_eqI iffI)
  fix m assume "m \<in> added_not_removed (ops @ [OpRemove n])"
  then obtain i where i: "i < Suc (length ops)" "\<exists>c'. (ops @ [OpRemove n]) ! i = OpAdd m c'"
    and later: "\<forall>j. i < j \<and> j < Suc (length ops) \<longrightarrow> (ops @ [OpRemove n]) ! j \<noteq> OpRemove m"
    by (auto simp: added_not_removed_def)
  have il: "i < length ops"
  proof (rule ccontr)
    assume "\<not> i < length ops"
    with i(1) have "i = length ops" by simp
    with i(2) show False by simp
  qed
  from later have "i < length ops \<and> length ops < Suc (length ops) \<longrightarrow>
      (ops @ [OpRemove n]) ! length ops \<noteq> OpRemove m" by blast
  with il have "(ops @ [OpRemove n]) ! length ops \<noteq> OpRemove m" by simp
  then have mn: "m \<noteq> n" by simp
  have "\<forall>j. i < j \<and> j < length ops \<longrightarrow> ops ! j \<noteq> OpRemove m"
  proof (intro allI impI)
    fix j assume j: "i < j \<and> j < length ops"
    with later have "(ops @ [OpRemove n]) ! j \<noteq> OpRemove m" by simp
    with j show "ops ! j \<noteq> OpRemove m" by (simp add: nth_append)
  qed
  with il i(2) have "m \<in> added_not_removed ops"
    by (auto simp: added_not_removed_def nth_append)
  with mn show "m \<in> added_not_removed ops - {n}" by simp
next
  fix m assume "m \<in> added_not_removed ops - {n}"
  then have mn: "m \<noteq> n" and "m \<in> added_not_removed ops" by simp_all
  then obtain i where i: "i < length ops" "\<exists>c'. ops ! i = OpAdd m c'"
    and later: "\<forall>j. i < j \<and> j < length ops \<longrightarrow> ops ! j \<noteq> OpRemove m"
    by (auto simp: added_not_removed_def)
  have "i < length (ops @ [OpRemove n])" using i(1) by simp
  moreover have "\<exists>c'. (ops @ [OpRemove n]) ! i = OpAdd m c'" using i by (simp add: nth_append)
  moreover have "\<forall>j. i < j \<and> j < length (ops @ [OpRemove n]) \<longrightarrow>
      (ops @ [OpRemove n]) ! j \<noteq> OpRemove m"
    using later mn by (auto simp: nth_append)
  ultimately show "m \<in> added_not_removed (ops @ [OpRemove n])"
    unfolding added_not_removed_def by blast
qed

lemma run_ops_snoc: "run_ops (ops @ [x]) b = apply_op (run_ops ops b) x"
  by (simp add: run_ops_def)

lemma keys_run_ops: "fst ` set (run_ops ops NewBalancer) = added_not_removed ops"
proof (induction ops rule: rev_induct)
  case Nil
  show ?case by (simp add: run_ops_def NewBalancer_def anr_Nil)
next
  case (snoc x ops)
  show ?case
  proof (cases x)
    case (OpAdd n c)
    then show ?thesis using snoc by (simp add: run_ops_snoc keys_Add anr_snoc_Add)
  next
    case (OpRemove n)
    then show ?thesis using snoc by (simp add: run_ops_snoc keys_Remove anr_snoc_Remove)
  qed
qed

text \<open>
  Claim C5. After any sequence of \<open>Add\<close> and \<open>Remove\<close> operations on a freshly constructed
  balancer, the names \<open>ConnectorNames\<close> returns are, as a set, exactly the names that have
  been added and not subsequently removed, and no name is listed twice. This holds for
  every order in which the range loop may visit the map.
\<close>

theorem C5_names_are_added_not_removed:
  "set (ConnectorNames seed (run_ops ops NewBalancer)) = added_not_removed ops \<and>
   distinct (ConnectorNames seed (run_ops ops NewBalancer))"
proof
  show "set (ConnectorNames seed (run_ops ops NewBalancer)) = added_not_removed ops"
    unfolding ConnectorNames_def keys_range_map by (rule keys_run_ops)
  have "distinct (map fst (run_ops ops NewBalancer))"
    by (rule distinct_run_ops) (simp add: NewBalancer_def)
  then show "distinct (ConnectorNames seed (run_ops ops NewBalancer))"
    by (simp add: ConnectorNames_def distinct_range_map)
qed

text \<open>
  The theorem at the operations of the package's test, followed by one more \<open>Add\<close>:
  \<open>foo\<close> and \<open>baz\<close> remain, \<open>bar\<close> is gone.
\<close>

theorem C5_names_witness:
  "set (ConnectorNames [1] (run_ops [OpAdd ''foo'' None, OpAdd ''bar'' None, OpRemove ''bar'',
        OpAdd ''baz'' None] NewBalancer)) = {''foo'', ''baz''} \<and>
   added_not_removed [OpAdd ''foo'' None, OpAdd ''bar'' None, OpRemove ''bar'',
        OpAdd ''baz'' None] = {''foo'', ''baz''} \<and>
   ConnectorNames [1] (run_ops [OpAdd ''foo'' None, OpAdd ''bar'' None, OpRemove ''bar'',
        OpAdd ''baz'' None] NewBalancer) = [''baz'', ''foo'']"
proof -
  have ev: "ConnectorNames [1] (run_ops [OpAdd ''foo'' None, OpAdd ''bar'' None, OpRemove ''bar'',
        OpAdd ''baz'' None] NewBalancer) = [''baz'', ''foo'']"
    by (simp add: ConnectorNames_def run_ops_def NewBalancer_def Add_def Remove_def)
  from C5_names_are_added_not_removed [of "[1]" "[OpAdd ''foo'' None, OpAdd ''bar'' None, OpRemove ''bar'',
        OpAdd ''baz'' None]"] ev
  show ?thesis by auto
qed

subsection \<open>\<open>Add\<close> followed by \<open>Remove\<close>\<close>

text \<open>
  Claim C6, as stated, fails when the name is already registered: \<open>Add\<close> overwrites the
  entry and \<open>Remove\<close> then deletes it, so a name that was listed before the \<open>Add\<close> is
  no longer listed. Here \<open>foo\<close> is registered, added again and removed.
\<close>

theorem C6_add_remove_counterexample:
  "set (ConnectorNames [] (Remove ''foo'' (Add ''foo'' (Some errConnector)
        (Add ''foo'' (Some testConnector) NewBalancer)))) \<noteq>
   set (ConnectorNames [] (Add ''foo'' (Some testConnector) NewBalancer))"
  by (simp add: ConnectorNames_def Add_def Remove_def NewBalancer_def)

text \<open>
  Claim C6, amended. After \<open>Add name c\<close> immediately followed by \<open>Remove name\<close>, the set of
  names is the set from before the \<open>Add\<close> without \<open>name\<close>; so it is unchanged when
  \<open>name\<close> was not registered before the \<open>Add\<close>.
\<close>

theorem C6_add_remove_names:
  "set (ConnectorNames seed' (Remove name (Add name c b))) = set (ConnectorNames seed b) - {name} \<and>
   (name \<notin> set (ConnectorNames seed b) \<longrightarrow>
      set (ConnectorNames seed' (Remove name (Add name c b))) = set (ConnectorNames seed b))"
  unfolding ConnectorNames_def keys_range_map by (auto simp add: keys_Remove keys_Add)

theorem C6_add_remove_witness:
  "''bar'' \<notin> set (ConnectorNames [] (Add ''foo'' (Some testConnector) NewBalancer)) \<and>
   set (ConnectorNames [1] (Remove ''bar'' (Add ''bar'' None
        (Add ''foo'' (Some testConnector) NewBalancer)))) = {''foo''} \<and>
   set (ConnectorNames [] (Add ''foo'' (Some testConnector) NewBalancer)) = {''foo''}"
  using C6_add_remove_names [of "[1]" "''bar''" None "Add ''foo'' (Some testConnector) NewBalancer" "[]"]
  by (simp add: ConnectorNames_def Add_def NewBalancer_def)

subsection \<open>Adding a name again\<close>

text \<open>
  Claim C7. When the registry already has an entry for a name, \<open>Add\<close> with that name
  overwrites the entry instead of adding a second one: the list of names does not grow,
  the set of names is the same, and the name now maps to the connector given last.
\<close>

theorem C7_readd_overwrites:
  "name \<in> set (ConnectorNames seed b) \<Longrightarrow>
     length (ConnectorNames seed' (Add name c b)) \<le> length (ConnectorNames seed b) \<and>
     set (ConnectorNames seed' (Add name c b)) = set (ConnectorNames seed b) \<and>
     lookup (Add name c b) name = Some c"
  unfolding ConnectorNames_def keys_range_map
  by (auto simp add: length_range_map Add_def lookup_def length_update_present AList.update_conv'
      keys_Add [unfolded Add_def])

theorem C7_readd_witness:
  "''foo'' \<in> set (ConnectorNames [] (Add ''foo'' (Some testConnector) NewBalancer)) \<and>
   length (ConnectorNames [] (Add ''foo'' (Some errConnector)
        (Add ''foo'' (Some testConnector) NewBalancer))) = 1 \<and>
   length (ConnectorNames [] (Add ''foo'' (Some testConnector) NewBalancer)) = 1"
  using C7_readd_overwrites [of "''foo''" "[]" "Add ''foo'' (Some testConnector) NewBalancer" "[]"
      "Some errConnector"]
  by (simp add: ConnectorNames_def Add_def NewBalancer_def)

subsection \<open>Entries of other names\<close>

text \<open>
  Claim C10. \<open>Add name c\<close> and \<open>Remove name\<close> touch at most the entry of \<open>name\<close>: for every
  other name, whether it has an entry, and which connector the entry holds, is the same
  after the operation as before.
\<close>

theorem C10_other_entries_unchanged:
  "other \<noteq> name \<Longrightarrow>
     lookup (Add name c b) other = lookup b other \<and>
     lookup (Remove name b) other = lookup b other"
  by (simp add: lookup_def Add_def Remove_def AList.update_conv' AList.delete_conv')

theorem C10_other_entries_witness:
  "''foo'' \<noteq> ''bar'' \<and>
   lookup (Add ''bar'' None (Add ''foo'' (Some testConnector) NewBalancer)) ''foo'' =
     Some (Some testConnector) \<and>
   lookup (Remove ''bar'' (Add ''foo'' (Some testConnector) NewBalancer)) ''foo'' =
     Some (Some testConnector)"
  using C10_other_entries_unchanged [of "''foo''" "''bar''" None
      "Add ''foo'' (Some testConnector) NewBalancer"]
  by (simp add: lookup_def Add_def NewBalancer_def)

section \<open>Selection: \<open>randomConnector\<close>\<close>

lemma range_map_Nil: "range_map seed [] = []"
  by (cases seed) simp_all

lemma range_map_single: "range_map seed [x] = [x]"
  by (cases seed) (simp_all add: range_map_Nil)

lemma randomConnector_Nil: "randomConnector seed [] = (None, Some ErrNoConnectors)"
  by (simp add: randomConnector_def range_map_Nil)

lemma randomConnector_single: "randomConnector seed [(name, c)] = (c, None)"
  by (simp add: randomConnector_def range_map_single)

lemma randomConnector_cases:
  "randomConnector seed b = (None, Some ErrNoConnectors) \<or>
   (\<exists>name c. (name, c) \<in> set b \<and> randomConnector seed b = (c, None))"
proof (cases "range_map seed b")
  case Nil
  then show ?thesis by (simp add: randomConnector_def)
next
  case (Cons x xs)
  obtain name c where x: "x = (name, c)" by (cases x)
  have "x \<in> set (range_map seed b)" using Cons by simp
  then have "(name, c) \<in> set b" using x by (simp add: set_range_map)
  then show ?thesis using Cons x by (auto simp: randomConnector_def)
qed

section \<open>\<open>Connect\<close> and the retry loop\<close>

lemma operation_empty:
  "bs k = [] \<Longrightarrow> operation e bs k st = (Ret (Some (PermanentError (Some ErrNoConnectors))), st)"
  by (simp add: operation_def randomConnector_Nil)

lemma Retry_empty:
  "bs k = [] \<Longrightarrow> Retry (Suc fuel) e bs k st = Some (Ret (Some ErrNoConnectors), st)"
  by (simp add: operation_empty)

text \<open>
  Claim C1. When the registry is empty at the start of an attempt, the attempt ends the
  retry loop at once with \<open>ErrNoConnectors\<close>: no connector is called, nothing is waited
  for, no further attempt is made, and this is so whatever the state of the caller's
  context. For the first attempt, \<open>Connect\<close> returns \<open>(nil, ErrNoConnectors)\<close>.
\<close>

theorem C1_empty_registry_no_connectors:
  "bs k = [] \<Longrightarrow>
     Retry (Suc fuel) e bs k st = Some (Ret (Some ErrNoConnectors), st) \<and>
     (k = 0 \<longrightarrow> Connect (Suc fuel) e bs = Some (Ret (None, Some ErrNoConnectors), 0))"
  by (auto simp add: Connect_def Retry_empty simp del: Retry.simps)

text \<open>The theorem at a fresh balancer and a context that is already done.\<close>

theorem C1_empty_registry_witness:
  "Connect 1 fired_env (\<lambda>k. NewBalancer) = Some (Ret (None, Some ErrNoConnectors), 0) \<and>
   ctx_done fired_env 0"
  using C1_empty_registry_no_connectors [of "\<lambda>k. NewBalancer" 0 0 fired_env "(None, 0)"]
  by (simp add: NewBalancer_def ctx_done_def fired_env_def)

subsection \<open>A registry with one entry\<close>

lemma operation_single:
  "operation e (\<lambda>k. [(name, Some f)]) k st =
     (Ret (snd (f (ctx_done e (3 * k)) k)), (fst (f (ctx_done e (3 * k)) k), Suc (snd st)))"
  by (simp add: operation_def randomConnector_single split: prod.splits)

text \<open>
  With one registered connector, every attempt calls it: when the loop ends after some
  attempts, it has made as many calls, and its result is what the last call returned.
\<close>

lemma Retry_single:
  "Retry fuel e (\<lambda>k. [(name, Some f)]) k (c0, k) = Some (r, st') \<Longrightarrow>
     k < snd st' \<and> r \<noteq> Panic \<and>
     fst st' = fst (f (ctx_done e (3 * (snd st' - 1))) (snd st' - 1)) \<and>
     (r = Ret None \<longrightarrow> reports_success (snd (f (ctx_done e (3 * (snd st' - 1))) (snd st' - 1)))) \<and>
     (\<forall>err. r = Ret (Some err) \<longrightarrow>
        (\<exists>err'. snd (f (ctx_done e (3 * (snd st' - 1))) (snd st' - 1)) = Some err' \<and>
           (as_permanent err' = Some (Some err) \<or>
            as_permanent err' = None \<and> (err = err' \<or> err = done_error e err'))))"
proof (induction fuel arbitrary: k c0)
  case 0
  then show ?case by simp
next
  case (Suc fuel)
  let ?r = "f (ctx_done e (3 * k)) k"
  have op: "operation e (\<lambda>k. [(name, Some f)]) k (c0, k) = (Ret (snd ?r), (fst ?r, Suc k))"
    by (simp add: operation_single)
  show ?case
  proof (cases "snd ?r")
    case None
    with op Suc.prems have "r = Ret None" "st' = (fst ?r, Suc k)" by simp_all
    with None show ?thesis by (simp add: reports_success_def)
  next
    case (Some err')
    show ?thesis
    proof (cases "as_permanent err'")
      case (Some inner)
      with \<open>snd ?r = Some err'\<close> op Suc.prems
      have r: "r = Ret inner" "st' = (fst ?r, Suc k)" by simp_all
      from Some have e': "err' = PermanentError inner" by (cases err') simp_all
      show ?thesis using r \<open>snd ?r = Some err'\<close> Some e'
        by (auto simp: reports_success_def)
    next
      case None
      show ?thesis
      proof (cases "ctx_done e (3 * k + 1) \<or> next_stop e k \<or> ctx_done e (3 * k + 2)")
        case True
        with None \<open>snd ?r = Some err'\<close> op Suc.prems
        have "st' = (fst ?r, Suc k)" "r = Ret (Some err') \<or> r = Ret (Some (done_error e err'))"
          by (auto split: if_splits)
        with None \<open>snd ?r = Some err'\<close> show ?thesis by auto
      next
        case False
        with None \<open>snd ?r = Some err'\<close> op Suc.prems
        have "Retry fuel e (\<lambda>k. [(name, Some f)]) (Suc k) (fst ?r, Suc k) = Some (r, st')"
          by simp
        from Suc.IH [OF this] show ?thesis by simp
      qed
    qed
  qed
qed

text \<open>
  Claim C4. When the registry holds exactly one entry, \<open>randomConnector\<close> returns that
  entry's connector whatever order the range loop takes, and \<open>Connect\<close> routes to it:
  \<^item> every attempt calls that connector: the attempt's error and the value of \<open>conn\<close>
    are the ones the connector returns, and one more connector call has been made;
  \<^item> if the connector's first call returns a nil error, \<open>Connect\<close> returns that call's
    connection after exactly one call;
  \<^item> whenever \<open>Connect\<close> returns, it has called the connector at least once and does not
    panic; a connection it returns is the one the connector's last call returned, that
    call having reported success; an error it returns is the error of the connector's
    last call (unwrapped if permanent, or replaced by the loop's error for a done
    context), with a nil connection.
\<close>

theorem C4_single_entry_selected:
  "randomConnector seed [(name, c)] = (c, None) \<and>
   operation e (\<lambda>k. [(name, Some f)]) k (cv, n) =
     (Ret (snd (f (ctx_done e (3 * k)) k)), (fst (f (ctx_done e (3 * k)) k), Suc n)) \<and>
   (snd (f (ctx_done e 0) 0) = None \<longrightarrow>
      Connect (Suc fuel) e (\<lambda>k. [(name, Some f)]) = Some (Ret (fst (f (ctx_done e 0) 0), None), 1)) \<and>
   (Connect fuel' e (\<lambda>k. [(name, Some f)]) = Some (res, m) \<longrightarrow>
      0 < m \<and> res \<noteq> Panic \<and>
      (\<forall>cn. res = Ret (cn, None) \<longrightarrow>
         cn = fst (f (ctx_done e (3 * (m - 1))) (m - 1)) \<and>
         reports_success (snd (f (ctx_done e (3 * (m - 1))) (m - 1)))) \<and>
      (\<forall>cn err. res = Ret (cn, Some err) \<longrightarrow>
         cn = None \<and>
         (\<exists>err'. snd (f (ctx_done e (3 * (m - 1))) (m - 1)) = Some err' \<and>
            (as_permanent err' = Some (Some err) \<or>
             as_permanent err' = None \<and> (err = err' \<or> err = done_error e err')))))"
proof (intro conjI impI)
  show "randomConnector seed [(name, c)] = (c, None)" by (rule randomConnector_single)
  show "operation e (\<lambda>k. [(name, Some f)]) k (cv, n) =
     (Ret (snd (f (ctx_done e (3 * k)) k)), (fst (f (ctx_done e (3 * k)) k), Suc n))"
    by (simp add: operation_single)
next
  assume "snd (f (ctx_done e 0) 0) = None"
  then show "Connect (Suc fuel) e (\<lambda>k. [(name, Some f)]) =
      Some (Ret (fst (f (ctx_done e 0) 0), None), 1)"
    by (simp add: Connect_def operation_single)
next
  assume C: "Connect fuel' e (\<lambda>k. [(name, Some f)]) = Some (res, m)"
  then obtain r st' where R: "Retry fuel' e (\<lambda>k. [(name, Some f)]) 0 (None, 0) = Some (r, st')"
    by (cases "Retry fuel' e (\<lambda>k. [(name, Some f)]) 0 (None, 0)") (auto simp: Connect_def)
  note S = Retry_single [OF R]
  from S have np: "r \<noteq> Panic" by simp
  from C R np have m: "m = snd st'"
    by (auto simp: Connect_def split: option.splits go.splits)
  show "0 < m" using S m by simp
  show "res \<noteq> Panic" using C R np
    by (auto simp: Connect_def split: option.splits go.splits)
  show "\<forall>cn. res = Ret (cn, None) \<longrightarrow>
         cn = fst (f (ctx_done e (3 * (m - 1))) (m - 1)) \<and>
         reports_success (snd (f (ctx_done e (3 * (m - 1))) (m - 1)))"
    using C R S m by (auto simp: Connect_def split: option.splits go.splits)
  show "\<forall>cn err. res = Ret (cn, Some err) \<longrightarrow>
         cn = None \<and>
         (\<exists>err'. snd (f (ctx_done e (3 * (m - 1))) (m - 1)) = Some err' \<and>
            (as_permanent err' = Some (Some err) \<or>
             as_permanent err' = None \<and> (err = err' \<or> err = done_error e err')))"
    using C R S m by (auto simp: Connect_def split: option.splits go.splits)
qed

text \<open>
  The theorem at a connector that succeeds at once; and a run in which the only connector
  fails once and then succeeds, \<open>Connect\<close> returning the connection of its second call.
\<close>

theorem C4_single_entry_witness:
  "snd ((\<lambda>(d::bool) (j::nat). (Some ''conn'', None :: error option)) (ctx_done (budget_env 0) 0) 0) = None \<and>
   Connect 1 (budget_env 0) (\<lambda>k. [(''foo'', Some (\<lambda>d j. (Some ''conn'', None)))]) =
     Some (Ret (Some ''conn'', None), 1) \<and>
   Connect 2 (budget_env 5)
     (\<lambda>k. [(''foo'', Some (\<lambda>d j. if j = 0 then (None, Some (ConnError ''err''))
                                    else (Some ''conn'', None)))]) =
     Some (Ret (Some ''conn'', None), 2)"
proof -
  let ?g = "\<lambda>(d::bool) (j::nat). (Some ''conn'', None :: error option)"
  let ?h = "\<lambda>(d::bool) (j::nat). if j = 0 then (None, Some (ConnError ''err''))
              else (Some ''conn'', None :: error option)"
  have first: "snd (?g (ctx_done (budget_env 0) 0) 0) = None" by simp
  from C4_single_entry_selected [where e = "budget_env 0" and f = ?g and name = "''foo''" and fuel = 0]
    first
  have one: "Connect 1 (budget_env 0) (\<lambda>k. [(''foo'', Some ?g)]) =
      Some (Ret (Some ''conn'', None), 1)"
    by simp
  have two: "Connect 2 (budget_env 5) (\<lambda>k. [(''foo'', Some ?h)]) =
      Some (Ret (Some ''conn'', None), 2)"
    by (simp add: Connect_def operation_def randomConnector_single numeral_2_eq_2
        budget_env_def ctx_done_def)
  from first one two show ?thesis by simp
qed

subsection \<open>Running out of budget\<close>

text \<open>An attempt that fails with an error the loop may retry.\<close>

lemma operation_fails:
  assumes "randomConnector (range_seed e k) (bs k) = (Some f, None)"
    and "f (ctx_done e (3 * k)) k = (c, Some err)"
  shows "operation e bs k st = (Ret (Some err), (c, Suc (snd st)))"
  using assms by (simp add: operation_def)

lemma Retry_exhaust:
  assumes fails: "\<forall>j \<le> n. \<exists>f c. randomConnector (range_seed e j) (bs j) = (Some f, None) \<and>
              f (ctx_done e (3 * j)) j = (c, Some (errs j)) \<and> as_permanent (errs j) = None"
    and stop: "next_stop e n" and nostop: "\<forall>j < n. \<not> next_stop e j"
    and live: "\<not> ctx_done e (3 * n + 1)"
  shows "k \<le> n \<Longrightarrow> n - k < fuel \<Longrightarrow>
     \<exists>c. Retry fuel e bs k st = Some (Ret (Some (errs n)), (c, snd st + Suc (n - k)))"
proof (induction "n - k" arbitrary: k st fuel)
  case 0
  then have kn: "k = n" by simp
  from 0 obtain fuel' where fuel: "fuel = Suc fuel'" by (cases fuel) auto
  from fails kn obtain f c where
    f: "randomConnector (range_seed e k) (bs k) = (Some f, None)"
       "f (ctx_done e (3 * k)) k = (c, Some (errs k))" "as_permanent (errs k) = None"
    by blast
  have "operation e bs k st = (Ret (Some (errs k)), (c, Suc (snd st)))"
    using f(1,2) by (rule operation_fails)
  then have "Retry fuel e bs k st = Some (Ret (Some (errs n)), (c, snd st + Suc (n - k)))"
    using f(3) stop live kn fuel by simp
  then show ?case by blast
next
  case (Suc d)
  then have kn: "k < n" by simp
  from Suc obtain fuel' where fuel: "fuel = Suc fuel'" by (cases fuel) auto
  from fails kn obtain f c where
    f: "randomConnector (range_seed e k) (bs k) = (Some f, None)"
       "f (ctx_done e (3 * k)) k = (c, Some (errs k))" "as_permanent (errs k) = None"
    by (meson less_imp_le)
  have op: "operation e bs k st = (Ret (Some (errs k)), (c, Suc (snd st)))"
    using f(1,2) by (rule operation_fails)
  have mono: "\<not> ctx_done e (3 * k + 1)" "\<not> ctx_done e (3 * k + 2)"
    using live kn by (auto simp: ctx_done_def split: option.splits)
  have ns: "\<not> next_stop e k" using nostop kn by simp
  have step: "Retry fuel e bs k st = Retry fuel' e bs (Suc k) (c, Suc (snd st))"
    using op f(3) mono ns fuel by simp
  have "d = n - Suc k" "Suc k \<le> n" "n - Suc k < fuel'"
    using Suc.hyps(2) Suc.prems fuel by simp_all
  from Suc.hyps(1) [OF this, of "(c, Suc (snd st))"]
  obtain c' where "Retry fuel' e bs (Suc k) (c, Suc (snd st)) =
      Some (Ret (Some (errs n)), (c', snd (c, Suc (snd st)) + Suc (n - Suc k)))"
    by blast
  with step kn have "Retry fuel e bs k st = Some (Ret (Some (errs n)), (c', snd st + Suc (n - k)))"
    by (simp add: Suc_diff_Suc)
  then show ?case by blast
qed

text \<open>
  Claim C2. Suppose the policy answers \<open>Stop\<close> for the first time after attempt \<open>n\<close>, the
  context is not done by then, and every attempt up to \<open>n\<close> selected a connector that
  failed with an error the loop retries (\<open>errs j\<close> at attempt \<open>j\<close>). Then \<open>Connect\<close>
  returns, after \<open>n + 1\<close> connector calls, with the error of the last attempt as it is,
  \<open>(nil, errs n)\<close>: any bound on the attempts above \<open>n\<close> is enough for the loop to end.
\<close>

theorem C2_budget_exhausted_last_error:
  assumes "\<forall>j \<le> n. \<exists>f c. randomConnector (range_seed e j) (bs j) = (Some f, None) \<and>
              f (ctx_done e (3 * j)) j = (c, Some (errs j)) \<and> as_permanent (errs j) = None"
    and "next_stop e n" and "\<forall>j < n. \<not> next_stop e j"
    and "\<not> ctx_done e (3 * n + 1)"
    and "n < fuel"
  shows "Connect fuel e bs = Some (Ret (None, Some (errs n)), Suc n)"
proof -
  from Retry_exhaust [OF assms(1-4), of 0 fuel "(None, 0)"] assms(5)
  obtain c where "Retry fuel e bs 0 (None, 0) = Some (Ret (Some (errs n)), (c, Suc n))"
    by auto
  then show ?thesis by (simp add: Connect_def)
qed

text \<open>
  The theorem at a registry whose only connector is the test's \<open>errConnector\<close>, the budget
  running out after the third attempt.
\<close>

theorem C2_budget_exhausted_witness:
  "Connect 3 (budget_env 2) (\<lambda>k. Add ''err'' (Some errConnector) NewBalancer) =
     Some (Ret (None, Some (ConnError ''err'')), 3)"
proof -
  let ?bs = "\<lambda>k::nat. Add ''err'' (Some errConnector) NewBalancer"
  have a: "\<forall>j \<le> 2. \<exists>f c. randomConnector (range_seed (budget_env 2) j) (?bs j) = (Some f, None) \<and>
      f (ctx_done (budget_env 2) (3 * j)) j = (c, Some (ConnError ''err'')) \<and>
      as_permanent (ConnError ''err'') = None"
    by (simp add: Add_def NewBalancer_def randomConnector_single errConnector_def)
  have b: "next_stop (budget_env 2) 2" by (simp add: budget_env_def)
  have c: "\<forall>j < 2. \<not> next_stop (budget_env 2) j" by (simp add: budget_env_def)
  have d: "\<not> ctx_done (budget_env 2) (3 * 2 + 1)" by (simp add: budget_env_def ctx_done_def)
  have "Connect 3 (budget_env 2) ?bs = Some (Ret (None, Some (ConnError ''err'')), Suc 2)"
    using C2_budget_exhausted_last_error [of 2 "budget_env 2" ?bs "\<lambda>j. ConnError ''err''" 3, OF a b c d]
    by simp
  then show ?thesis by simp
qed

subsection \<open>A context that is done before the call\<close>

text \<open>
  Claim C3, as stated, fails: the loop runs the closure before it looks at the context,
  and the closure calls the selected connector without looking at the context either.
  With the test's \<open>testConnector\<close> registered and the context already done, \<open>Connect\<close>
  makes one connector call and returns what that call returned, with a nil error: no
  cancellation error is surfaced.
\<close>

theorem C3_fired_context_counterexample:
  "Connect 1 fired_env (\<lambda>k. Add ''foo'' (Some testConnector) NewBalancer) =
     Some (Ret (None, None), 1) \<and> ctx_done fired_env 0"
  by (simp add: Connect_def operation_def randomConnector_def Add_def NewBalancer_def
      fired_env_def testConnector_def ctx_done_def)

lemma ctx_done_fired: "ctx_done_at e = Some 0 \<Longrightarrow> ctx_done e t"
  by (simp add: ctx_done_def)

text \<open>
  Claim C3, amended. When the context is done before \<open>Connect\<close> is called, \<open>Connect\<close> makes
  exactly one attempt and neither waits nor retries, whatever bound is put on the
  attempts. What it returns depends on the first entry the range loop visits:
  \<^item> there is none, the registry being empty: \<open>(nil, ErrNoConnectors)\<close>, no connector call;
  \<^item> the entry holds a nil connector: the call panics, no connector call is made;
  \<^item> the entry holds a connector: that connector is called once, with the done context.
    If the call returns a nil error, or a permanent error that wraps nil, \<open>Connect\<close>
    returns the call's connection with a nil error; if it returns a permanent error that
    wraps an error, \<open>Connect\<close> returns that error; for any other error \<open>Connect\<close> returns
    the error the retry loop hands back for a done context.
  The range loop visits no entry exactly when the registry is empty.
\<close>

theorem C3_fired_context_single_attempt:
  assumes "ctx_done_at e = Some 0"
  shows "Connect (Suc fuel) e bs =
     (case range_map (range_seed e 0) (bs 0) of
        [] \<Rightarrow> Some (Ret (None, Some ErrNoConnectors), 0)
      | (name, None) # rest \<Rightarrow> Some (Panic, 0)
      | (name, Some f) # rest \<Rightarrow>
          (case f True 0 of
             (conn', None) \<Rightarrow> Some (Ret (conn', None), 1)
           | (conn', Some err) \<Rightarrow>
               (case as_permanent err of
                  Some None \<Rightarrow> Some (Ret (conn', None), 1)
                | Some (Some inner) \<Rightarrow> Some (Ret (None, Some inner), 1)
                | None \<Rightarrow> Some (Ret (None, Some (done_error e err)), 1)))) \<and>
     (range_map (range_seed e 0) (bs 0) = []) = (bs 0 = [])"
proof
  show "(range_map (range_seed e 0) (bs 0) = []) = (bs 0 = [])"
    using length_range_map [of "range_seed e 0" "bs 0"] by (metis length_0_conv)
  show "Connect (Suc fuel) e bs =
     (case range_map (range_seed e 0) (bs 0) of
        [] \<Rightarrow> Some (Ret (None, Some ErrNoConnectors), 0)
      | (name, None) # rest \<Rightarrow> Some (Panic, 0)
      | (name, Some f) # rest \<Rightarrow>
          (case f True 0 of
             (conn', None) \<Rightarrow> Some (Ret (conn', None), 1)
           | (conn', Some err) \<Rightarrow>
               (case as_permanent err of
                  Some None \<Rightarrow> Some (Ret (conn', None), 1)
                | Some (Some inner) \<Rightarrow> Some (Ret (None, Some inner), 1)
                | None \<Rightarrow> Some (Ret (None, Some (done_error e err)), 1))))"
    using ctx_done_fired [OF assms]
    by (simp add: Connect_def operation_def randomConnector_def
        split: list.splits prod.splits option.splits)
qed

text \<open>
  The theorem at a registry whose only connector is the test's \<open>errConnector\<close>: one call,
  although four attempts are allowed.
\<close>

theorem C3_fired_context_witness:
  "ctx_done_at fired_env = Some 0 \<and>
   Connect 4 fired_env (\<lambda>k. Add ''err'' (Some errConnector) NewBalancer) =
     Some (Ret (None, Some (ConnError ''err'')), 1)"
  using C3_fired_context_single_attempt [of fired_env 3 "\<lambda>k. Add ''err'' (Some errConnector) NewBalancer"]
  by (simp add: fired_env_def Add_def NewBalancer_def errConnector_def)

subsection \<open>What \<open>Connect\<close> returns\<close>

lemma operation_cases:
  "operation e bs k st = (Ret (Some (PermanentError (Some ErrNoConnectors))), st) \<or>
   operation e bs k st = (Panic, st) \<or>
   (\<exists>name f. (name, Some f) \<in> set (bs k) \<and>
      operation e bs k st =
        (Ret (snd (f (ctx_done e (3 * k)) k)), (fst (f (ctx_done e (3 * k)) k), Suc (snd st))))"
proof -
  from randomConnector_cases [of "range_seed e k" "bs k"]
  consider (none) "randomConnector (range_seed e k) (bs k) = (None, Some ErrNoConnectors)"
    | (some) name c where "(name, c) \<in> set (bs k)"
        "randomConnector (range_seed e k) (bs k) = (c, None)"
    by blast
  then show ?thesis
  proof cases
    case none
    then show ?thesis by (simp add: operation_def)
  next
    case some
    show ?thesis
    proof (cases c)
      case None
      with some(2) show ?thesis by (simp add: operation_def)
    next
      case (Some f)
      with some(2) have "operation e bs k st =
        (Ret (snd (f (ctx_done e (3 * k)) k)), (fst (f (ctx_done e (3 * k)) k), Suc (snd st)))"
        by (simp add: operation_def split: prod.splits)
      with some(1) Some show ?thesis by blast
    qed
  qed
qed

text \<open>
  When the loop ends with nil, the variable \<open>conn\<close> holds what a registered connector
  returned along with a report of success.
\<close>

lemma Retry_nil_conn:
  "Retry fuel e bs k st = Some (Ret None, st') \<Longrightarrow>
     \<exists>j name f d. (name, Some f) \<in> set (bs j) \<and> fst (f d j) = fst st' \<and> reports_success (snd (f d j))"
proof (induction fuel arbitrary: k st)
  case 0
  then show ?case by simp
next
  case (Suc fuel)
  from operation_cases [of e bs k st]
  consider
    (empty) "operation e bs k st = (Ret (Some (PermanentError (Some ErrNoConnectors))), st)"
  | (panic) "operation e bs k st = (Panic, st)"
  | (call) name f where "(name, Some f) \<in> set (bs k)"
      "operation e bs k st =
        (Ret (snd (f (ctx_done e (3 * k)) k)), (fst (f (ctx_done e (3 * k)) k), Suc (snd st)))"
    by blast
  then show ?case
  proof cases
    case empty
    with Suc.prems show ?thesis by simp
  next
    case panic
    with Suc.prems show ?thesis by simp
  next
    case call
    let ?r = "f (ctx_done e (3 * k)) k"
    let ?st = "(fst ?r, Suc (snd st))"
    show ?thesis
    proof (cases "snd ?r")
      case None
      with call(2) Suc.prems have "st' = ?st" by simp
      with None call(1) show ?thesis
        by (auto simp: reports_success_def)
    next
      case (Some err)
      show ?thesis
      proof (cases "as_permanent err")
        case None
        with Some call(2) Suc.prems
        have "Retry fuel e bs (Suc k) ?st = Some (Ret None, st')"
          by (simp split: if_splits)
        then show ?thesis by (rule Suc.IH)
      next
        case (Some inner)
        with \<open>snd ?r = Some err\<close> call(2) Suc.prems
        have "inner = None" "st' = ?st" by simp_all
        moreover from Some \<open>inner = None\<close> have "err = PermanentError None"
          by (cases err) simp_all
        ultimately show ?thesis using call(1) \<open>snd ?r = Some err\<close>
          by (auto simp: reports_success_def)
      qed
    qed
  qed
qed

text \<open>
  Claim C8, as stated, fails for a connector that returns \<open>nil, nil\<close>, as the test's
  \<open>testConnector\<close> does: \<open>Connect\<close> passes the pair on, and returns neither a connection
  nor an error.
\<close>

theorem C8_nil_nil_counterexample:
  "Connect 1 (budget_env 0) (\<lambda>k. Add ''foo'' (Some testConnector) NewBalancer) =
     Some (Ret (None, None), 1)"
  by (simp add: Connect_def operation_def randomConnector_single Add_def NewBalancer_def
      testConnector_def)

text \<open>
  A connector that returns a nil connection with a permanent error wrapping nil has the
  same effect: the loop takes the wrapped nil for success.
\<close>

lemma Connect_permanent_nil:
  "Connect 1 (budget_env 0) (\<lambda>k. [(''foo'', Some (\<lambda>d j. (None, Some (PermanentError None))))]) =
     Some (Ret (None, None), 1)"
  by (simp add: Connect_def operation_def randomConnector_single)

text \<open>
  Claim C8, amended. Whenever \<open>Connect\<close> returns, it never returns both a connection and
  an error. It returns exactly one of the two if every registered connector keeps its
  contract, that is, if every result of a registered connector whose error is nil, or is
  a permanent error that wraps nil, comes with a connection.
\<close>

theorem C8_connection_or_error:
  assumes "Connect fuel e bs = Some (Ret (c, err), n)"
  shows "\<not> (c \<noteq> None \<and> err \<noteq> None) \<and>
     ((\<forall>k name f d. (name, Some f) \<in> set (bs k) \<longrightarrow> keeps_contract (f d k)) \<longrightarrow>
        (c \<noteq> None) \<noteq> (err \<noteq> None))"
proof (cases "Retry fuel e bs 0 (None, 0)")
  case None
  with assms show ?thesis by (simp add: Connect_def)
next
  case (Some res)
  obtain r st' where res: "res = (r, st')" by (cases res)
  show ?thesis
  proof (cases r)
    case Panic
    with Some res assms show ?thesis by (simp add: Connect_def)
  next
    case (Ret x)
    show ?thesis
    proof (cases x)
      case (Some err')
      with Ret \<open>Retry fuel e bs 0 (None, 0) = Some res\<close> res assms
      have "c = None" "err = Some err'" by (simp_all add: Connect_def)
      then show ?thesis by simp
    next
      case None
      with Ret \<open>Retry fuel e bs 0 (None, 0) = Some res\<close> res assms
      have ce: "c = fst st'" "err = None" and R: "Retry fuel e bs 0 (None, 0) = Some (Ret None, st')"
        by (simp_all add: Connect_def)
      from Retry_nil_conn [OF R] obtain j name f d where
        f: "(name, Some f) \<in> set (bs j)" "fst (f d j) = fst st'" "reports_success (snd (f d j))"
        by blast
      show ?thesis
      proof (intro conjI impI)
        show "\<not> (c \<noteq> None \<and> err \<noteq> None)" using ce by simp
        assume "\<forall>k name f d. (name, Some f) \<in> set (bs k) \<longrightarrow> keeps_contract (f d k)"
        with f(1) have "keeps_contract (f d j)" by blast
        with f(2,3) ce show "(c \<noteq> None) \<noteq> (err \<noteq> None)"
          by (simp add: keeps_contract_def)
      qed
    qed
  qed
qed

theorem C8_connection_or_error_witness:
  "Connect 1 (budget_env 0) (\<lambda>k. [(''foo'', Some (\<lambda>d j. (Some ''conn'', None)))]) =
     Some (Ret (Some ''conn'', None), 1) \<and>
   keeps_contract (Some ''conn'', None) \<and>
   (Some ''conn'' \<noteq> (None :: conn option)) \<noteq> ((None :: error option) \<noteq> None)"
proof -
  let ?bs = "\<lambda>k::nat. [(''foo'', Some (\<lambda>(d::bool) (j::nat). (Some ''conn'', None :: error option)))]"
  have run: "Connect 1 (budget_env 0) ?bs = Some (Ret (Some ''conn'', None), 1)"
    by (simp add: Connect_def operation_def randomConnector_single)
  have contract: "\<forall>k name f d. (name, Some f) \<in> set (?bs k) \<longrightarrow> keeps_contract (f d k)"
    by (simp add: keeps_contract_def)
  from C8_connection_or_error [OF run] contract run
  show ?thesis by (simp add: keeps_contract_def)
qed

subsection \<open>A nil connector\<close>

text \<open>
  Claim C9, as stated, fails in its last part: \<open>Add\<close> stores a nil connector, but when
  \<open>Connect\<close> selects it, the method call on the nil interface value panics; no error is
  returned.
\<close>

theorem C9_nil_connector_counterexample:
  "lookup (Add ''bar'' None NewBalancer) ''bar'' = Some None \<and>
   Connect 1 (budget_env 0) (\<lambda>k. Add ''bar'' None NewBalancer) = Some (Panic, 0)"
  by (simp add: lookup_def Connect_def operation_def randomConnector_single Add_def NewBalancer_def)

text \<open>
  Claim C9, amended. \<open>Add\<close> accepts a nil connector without validation and the registry
  stores it under the name; when an attempt of \<open>Connect\<close> selects that entry, the attempt
  panics (before any connector is called), and so does \<open>Connect\<close>.
\<close>

theorem C9_nil_connector_panics:
  "lookup (Add name None b) name = Some None \<and>
   (randomConnector (range_seed e k) (bs k) = (None, None) \<longrightarrow>
      Retry (Suc fuel) e bs k st = Some (Panic, st) \<and>
      (k = 0 \<longrightarrow> Connect (Suc fuel) e bs = Some (Panic, 0)))"
  by (auto simp add: lookup_def Add_def AList.update_conv' Connect_def operation_def)

theorem C9_nil_connector_witness:
  "randomConnector (range_seed (budget_env 0) 0) (Add ''bar'' None NewBalancer) = (None, None) \<and>
   Connect 2 (budget_env 0) (\<lambda>k. Add ''bar'' None NewBalancer) = Some (Panic, 0)"
  using C9_nil_connector_panics [of "''bar''" NewBalancer "budget_env 0" 0
      "\<lambda>k. Add ''bar'' None NewBalancer" 1 "(None, 0)"]
  by (simp add: Add_def NewBalancer_def randomConnector_single numeral_2_eq_2 del: Retry.simps)

end
